
theory Spec2Isabelle
  imports Complex_Main "HOL-Library.Sublist"
begin

section \<open>Data model\<close>

text \<open>
  The expense table \<^verbatim>\<open>expenses_df\<close> is a pandas DataFrame with the columns
  \<^verbatim>\<open>Participant\<close> and \<^verbatim>\<open>Amount\<close>; it is the ledger of the specification. A row is a
  record, the table the list of its rows in index order. The \<^verbatim>\<open>Amount\<close> column holds
  Python floats (float64). The model computes with exact real numbers. The program's
  values are those of the model rounded, so the theorems below are kept to what
  rounding cannot change: which branch a check takes, tests of sign, a balance that
  its own payment clears (\<open>x + (- x)\<close> and \<open>c - c\<close> are zero in float64 too), and the
  expression a handler evaluates. What hangs on accumulated rounding (the sum of the
  balances, the balances after an equal split, the percentage test at its threshold)
  is not stated of the program.
\<close>

record row =
  Participant :: string
  Amount :: real

type_synonym ledger = "row list"

text \<open>
  The table \<^verbatim>\<open>balances\<close> of the summary tab is a copy of the ledger with one more
  column, \<^verbatim>\<open>Balance\<close>.
\<close>

record brow = row +
  Balance :: real

text \<open>
  The user-facing messages of the handlers that refuse an input, under the names the
  specification gives them:
  \<^item> \<open>DuplicateNameError\<close>: the warning \<^verbatim>\<open>Participant already exists!\<close>;
  \<^item> \<open>EmptyLedgerError\<close>: the warnings \<^verbatim>\<open>Please add participants first.\<close> and
    \<^verbatim>\<open>No data available.\<close>;
  \<^item> \<open>InvalidAmountError\<close>: the warning \<^verbatim>\<open>Enter a valid amount.\<close>;
  \<^item> \<open>PercentageSumError\<close>: the error \<^verbatim>\<open>Percentages must sum to 100!\<close>, followed by
    \<^verbatim>\<open>st.stop()\<close>;
  \<^item> \<open>ValueError\<close>: raised by pandas when a list of another length is added to a column.
\<close>

datatype error =
  DuplicateNameError
  | EmptyLedgerError
  | InvalidAmountError
  | PercentageSumError
  | ValueError

text \<open>The radio button \<^verbatim>\<open>split_type\<close>, with the list \<^verbatim>\<open>shares\<close> of the unequal split.\<close>

datatype split_type = Equal | Unequal "real list"

section \<open>Participants tab\<close>

text \<open>
  The handler of the \<^verbatim>\<open>Add\<close> button, with the button pressed. It is guarded by the
  truth value of the text input: an empty string skips the handler, with no message and
  no change. Any other string that is not in the \<^verbatim>\<open>Participant\<close> column is appended
  with \<^verbatim>\<open>Amount\<close> 0.0. The result is the table of the session afterwards and the
  refusal, if there was one.
\<close>

definition add_participant :: "ledger \<Rightarrow> string \<Rightarrow> ledger \<times> error option" where
  "add_participant expenses_df new_participant =
     (if new_participant \<noteq> [] then
        (if new_participant \<notin> set (map Participant expenses_df)
         then (expenses_df @ [\<lparr>Participant = new_participant, Amount = 0\<rparr>], None)
         else (expenses_df, Some DuplicateNameError))
      else (expenses_df, None))"

section \<open>Expense tab\<close>

text \<open>
  The handler of the \<^verbatim>\<open>Add Expense\<close> button, with the button pressed. The checks come
  in the order of the source: the empty table first (the form is not even shown), then
  the amount, then, for an unequal split only, the sum of the percentages. The list
  \<^verbatim>\<open>shares\<close> is built by the form with one entry for each row. For a list of another
  length, which the form never builds, pandas broadcasts a single entry to every row
  and raises otherwise, before anything is stored.

  The program evaluates \<^verbatim>\<open>abs(sum(shares) - 100) > 0.01\<close> in float64; the definition
  compares the exact values. At the threshold the two can differ: the percentages
  10.01 and 90 have the exact distance 0.01, which the definition accepts, and the
  float64 distance 0.010000000000005, which the program refuses. No theorem below
  concludes that an unequal split is accepted.
\<close>

definition allocate :: "ledger \<Rightarrow> real \<Rightarrow> split_type \<Rightarrow> ledger \<times> error option" where
  "allocate expenses_df amount split =
     (if length expenses_df = 0 then (expenses_df, Some EmptyLedgerError)
      else if amount \<le> 0 then (expenses_df, Some InvalidAmountError)
      else (case split of
          Equal \<Rightarrow>
            (let share_per_person = amount / real (length expenses_df)
             in (map (\<lambda>r. r\<lparr>Amount := Amount r + share_per_person\<rparr>) expenses_df, None))
        | Unequal shares \<Rightarrow>
            (if \<bar>sum_list shares - 100\<bar> > 1 / 100 then (expenses_df, Some PercentageSumError)
             else if length shares = length expenses_df
             then (map2 (\<lambda>r s. r\<lparr>Amount := Amount r + amount * (s / 100)\<rparr>) expenses_df shares,
                   None)
             else if length shares = 1
             then (map (\<lambda>r. r\<lparr>Amount := Amount r + amount * (hd shares / 100)\<rparr>) expenses_df,
                   None)
             else (expenses_df, Some ValueError))))"

section \<open>Summary tab: balances\<close>

text \<open>
  The balance of a row is its amount minus the mean amount. On an empty table the tab
  shows a warning and computes nothing. The sum, the mean and the differences are
  float64 values in the program and exact here, so the program's balances are these
  rounded. The definition is used below only to compute the balances of example
  ledgers; the theorems about the settlement hold of any table of balances, the
  program's own rounded ones included.
\<close>

definition compute_balances :: "ledger \<Rightarrow> error + brow list" where
  "compute_balances expenses_df =
     (if length expenses_df = 0 then Inl EmptyLedgerError
      else
        (let total_spent = sum_list (map Amount expenses_df);
             per_person = total_spent / real (length expenses_df)
         in Inr (map (\<lambda>r. \<lparr>Participant = Participant r, Amount = Amount r,
                             Balance = Amount r - per_person\<rparr>) expenses_df)))"

section \<open>Summary tab: settlement suggestions\<close>

text \<open>
  A suggestion is the string \<^verbatim>\<open>debtor -> creditor: pay\<close>, with the payment printed with
  two decimals. The model keeps the three values the string is formatted from.
\<close>

record transfer =
  t_from :: string
  t_to :: string
  t_amount :: real

text \<open>
  The state of the loop: the two filtered tables, whose \<^verbatim>\<open>Balance\<close> column the loop
  updates in place, the two positions \<^verbatim>\<open>i\<close> and \<^verbatim>\<open>j\<close>, and the suggestions so far.
\<close>

record settle_state =
  debtors :: "brow list"
  creditors :: "brow list"
  pos_i :: nat
  pos_j :: nat
  suggestions :: "transfer list"

text \<open>The tolerance \<^verbatim>\<open>1e-6\<close> of the two tests that move the positions.\<close>

definition eps :: real where
  "eps = 1 / 1000000"

definition loop_cond :: "settle_state \<Rightarrow> bool" where
  "loop_cond s \<longleftrightarrow> pos_i s < length (debtors s) \<and> pos_j s < length (creditors s)"

definition pay_of :: "settle_state \<Rightarrow> real" where
  "pay_of s =
     min (- Balance (debtors s ! pos_i s)) (Balance (creditors s ! pos_j s))"

text \<open>One pass through the body of the \<^verbatim>\<open>while\<close> loop.\<close>

definition settle_step :: "settle_state \<Rightarrow> settle_state" where
  "settle_step s =
     (let debtor = debtors s ! pos_i s;
          creditor = creditors s ! pos_j s;
          pay = pay_of s;
          debtors' = (debtors s)[pos_i s := debtor\<lparr>Balance := Balance debtor + pay\<rparr>];
          creditors' = (creditors s)[pos_j s := creditor\<lparr>Balance := Balance creditor - pay\<rparr>]
      in \<lparr>debtors = debtors',
          creditors = creditors',
          pos_i = (if \<bar>Balance (debtors' ! pos_i s)\<bar> < eps then pos_i s + 1 else pos_i s),
          pos_j = (if \<bar>Balance (creditors' ! pos_j s)\<bar> < eps then pos_j s + 1 else pos_j s),
          suggestions = suggestions s @
            [\<lparr>t_from = Participant debtor, t_to = Participant creditor, t_amount = pay\<rparr>]\<rparr>)"

text \<open>
  The \<^verbatim>\<open>while\<close> loop. The number of rows still ahead of the two positions drops in
  every pass: the payment is the whole of one of the two current balances, which
  leaves that balance at zero and moves its position.
\<close>

definition remaining :: "settle_state \<Rightarrow> nat" where
  "remaining s = (length (debtors s) - pos_i s) + (length (creditors s) - pos_j s)"

function settle_loop :: "settle_state \<Rightarrow> settle_state" where
  "settle_loop s = (if loop_cond s then settle_loop (settle_step s) else s)"
  by pat_completeness auto

termination
proof (relation "measure remaining")
  show "wf (measure remaining)"
    by simp
next
  fix s
  assume c: "loop_cond s"
  have p: "pay_of s = - Balance (debtors s ! pos_i s) \<or> pay_of s = Balance (creditors s ! pos_j s)"
    by (simp add: pay_of_def min_def)
  have "remaining (settle_step s) < remaining s"
    using c p
    by (auto simp: remaining_def loop_cond_def settle_step_def Let_def eps_def)
  then show "(settle_step s, s) \<in> measure remaining"
    by simp
qed

declare settle_loop.simps [simp del]

text \<open>
  The two filters that start the loop, and the suggestions it ends with. The filters
  compare the balance with zero; the tolerance plays no part in them.
\<close>

definition settle_init :: "brow list \<Rightarrow> settle_state" where
  "settle_init balances =
     \<lparr>debtors = filter (\<lambda>r. Balance r < 0) balances,
      creditors = filter (\<lambda>r. Balance r > 0) balances,
      pos_i = 0, pos_j = 0, suggestions = []\<rparr>"

definition compute_settlement :: "brow list \<Rightarrow> transfer list" where
  "compute_settlement balances = suggestions (settle_loop (settle_init balances))"

text \<open>The tables and positions at the end of the loop, for the balances of a ledger.\<close>

definition settle_final :: "brow list \<Rightarrow> settle_state" where
  "settle_final balances = settle_loop (settle_init balances)"

section \<open>Applying the transfers\<close>

text \<open>
  The specification speaks of the balances after all transfers have been applied.
  These two definitions follow its words: applying a transfer adds its amount to the
  balance of the participant it comes from and subtracts it from the balance of the
  participant it goes to, which is what lines 142 and 143 do to the two rows of the
  loop; \<open>adjusted_balances\<close> applies the suggested transfers, in order, to the table
  of balances. The lemma \<open>adjusted_tables\<close> below shows that the result is the two
  tables the loop ends with.
\<close>

definition apply_transfer :: "transfer \<Rightarrow> brow list \<Rightarrow> brow list" where
  "apply_transfer t rows =
     map (\<lambda>r. if Participant r = t_from t then r\<lparr>Balance := Balance r + t_amount t\<rparr>
              else if Participant r = t_to t then r\<lparr>Balance := Balance r - t_amount t\<rparr>
              else r) rows"

definition adjusted_balances :: "brow list \<Rightarrow> brow list" where
  "adjusted_balances balances = fold apply_transfer (compute_settlement balances) balances"

text \<open>The names of the debtors and of the creditors the loop starts with.\<close>

definition debtor_names :: "brow list \<Rightarrow> string set" where
  "debtor_names balances = set (map Participant (debtors (settle_init balances)))"

definition creditor_names :: "brow list \<Rightarrow> string set" where
  "creditor_names balances = set (map Participant (creditors (settle_init balances)))"

text \<open>
  The suggestion that one pass of the loop appends, and the condition under which a
  name stands for one row of the two tables.
\<close>

definition transfer_of :: "settle_state \<Rightarrow> transfer" where
  "transfer_of s =
     \<lparr>t_from = Participant (debtors s ! pos_i s), t_to = Participant (creditors s ! pos_j s),
      t_amount = pay_of s\<rparr>"

definition names_apart :: "settle_state \<Rightarrow> bool" where
  "names_apart s \<longleftrightarrow> distinct (map Participant (debtors s) @ map Participant (creditors s))"

section \<open>Example tables\<close>

text \<open>
  The ledger of the specification's settlement example, A with 100, B with 0 and C with
  50, and its balances.
\<close>

definition ledger_abc :: ledger where
  "ledger_abc =
     [\<lparr>Participant = ''A'', Amount = 100\<rparr>, \<lparr>Participant = ''B'', Amount = 0\<rparr>,
      \<lparr>Participant = ''C'', Amount = 50\<rparr>]"

definition balances_abc :: "brow list" where
  "balances_abc =
     [\<lparr>Participant = ''A'', Amount = 100, Balance = 50\<rparr>,
      \<lparr>Participant = ''B'', Amount = 0, Balance = -50\<rparr>,
      \<lparr>Participant = ''C'', Amount = 50, Balance = 0\<rparr>]"

text \<open>
  Three more ledgers with their balances: one on which the loop stops with a creditor
  left unpaid, one with the specification's four balances 30, 20, -25 and -25, and one
  whose balances are within the tolerance of zero without being zero. The last table
  is one of balances that are all zero.
\<close>

definition ledger_residue :: ledger where
  "ledger_residue =
     [\<lparr>Participant = ''A'', Amount = 9999992 / 10000000\<rparr>,
      \<lparr>Participant = ''B'', Amount = 9999992 / 10000000\<rparr>,
      \<lparr>Participant = ''C'', Amount = 3\<rparr>,
      \<lparr>Participant = ''D'', Amount = 3\<rparr>,
      \<lparr>Participant = ''E'', Amount = 20000016 / 10000000\<rparr>]"

definition balances_residue :: "brow list" where
  "balances_residue =
     [\<lparr>Participant = ''A'', Amount = 9999992 / 10000000, Balance = - (10000008 / 10000000)\<rparr>,
      \<lparr>Participant = ''B'', Amount = 9999992 / 10000000, Balance = - (10000008 / 10000000)\<rparr>,
      \<lparr>Participant = ''C'', Amount = 3, Balance = 1\<rparr>,
      \<lparr>Participant = ''D'', Amount = 3, Balance = 1\<rparr>,
      \<lparr>Participant = ''E'', Amount = 20000016 / 10000000, Balance = 16 / 10000000\<rparr>]"

definition ledger_four :: ledger where
  "ledger_four =
     [\<lparr>Participant = ''A'', Amount = 55\<rparr>, \<lparr>Participant = ''B'', Amount = 45\<rparr>,
      \<lparr>Participant = ''C'', Amount = 0\<rparr>, \<lparr>Participant = ''D'', Amount = 0\<rparr>]"

definition balances_four :: "brow list" where
  "balances_four =
     [\<lparr>Participant = ''A'', Amount = 55, Balance = 30\<rparr>,
      \<lparr>Participant = ''B'', Amount = 45, Balance = 20\<rparr>,
      \<lparr>Participant = ''C'', Amount = 0, Balance = -25\<rparr>,
      \<lparr>Participant = ''D'', Amount = 0, Balance = -25\<rparr>]"

definition ledger_tiny :: ledger where
  "ledger_tiny =
     [\<lparr>Participant = ''A'', Amount = 1 / 1000000\<rparr>, \<lparr>Participant = ''B'', Amount = 0\<rparr>]"

definition balances_tiny :: "brow list" where
  "balances_tiny =
     [\<lparr>Participant = ''A'', Amount = 1 / 1000000, Balance = 1 / 2000000\<rparr>,
      \<lparr>Participant = ''B'', Amount = 0, Balance = - (1 / 2000000)\<rparr>]"

definition balances_settled :: "brow list" where
  "balances_settled =
     [\<lparr>Participant = ''A'', Amount = 30, Balance = 0\<rparr>,
      \<lparr>Participant = ''B'', Amount = 30, Balance = 0\<rparr>]"

section \<open>Invariant of the settlement loop\<close>

text \<open>
  What the loop keeps true of its two tables. Behind a position every balance has been
  brought within the tolerance of zero without changing sign; from the position on
  every debtor still owes and every creditor is still owed. Every payment suggested so
  far is positive.
\<close>

definition debtors_ok :: "brow list \<Rightarrow> nat \<Rightarrow> bool" where
  "debtors_ok ds i \<longleftrightarrow>
     i \<le> length ds \<and>
     (\<forall>k<length ds.
        (k < i \<longrightarrow> - eps < Balance (ds ! k) \<and> Balance (ds ! k) \<le> 0) \<and>
        (i \<le> k \<longrightarrow> Balance (ds ! k) < 0))"

definition creditors_ok :: "brow list \<Rightarrow> nat \<Rightarrow> bool" where
  "creditors_ok cs j \<longleftrightarrow>
     j \<le> length cs \<and>
     (\<forall>k<length cs.
        (k < j \<longrightarrow> 0 \<le> Balance (cs ! k) \<and> Balance (cs ! k) < eps) \<and>
        (j \<le> k \<longrightarrow> 0 < Balance (cs ! k)))"

definition settle_inv :: "settle_state \<Rightarrow> bool" where
  "settle_inv s \<longleftrightarrow>
     debtors_ok (debtors s) (pos_i s) \<and> creditors_ok (creditors s) (pos_j s) \<and>
     (\<forall>t\<in>set (suggestions s). 0 < t_amount t)"

section \<open>The tolerance\<close>

lemma eps_pos [simp]: "0 < eps"
  by (simp add: eps_def)

section \<open>Facts about one pass of the loop\<close>

lemma pay_of_cases:
  "pay_of s = - Balance (debtors s ! pos_i s) \<or> pay_of s = Balance (creditors s ! pos_j s)"
  by (simp add: pay_of_def min_def)

lemma debtors_step:
  "debtors (settle_step s) =
     (debtors s)[pos_i s := (debtors s ! pos_i s)\<lparr>Balance := Balance (debtors s ! pos_i s) + pay_of s\<rparr>]"
  by (simp add: settle_step_def Let_def)

lemma creditors_step:
  "creditors (settle_step s) =
     (creditors s)[pos_j s := (creditors s ! pos_j s)\<lparr>Balance := Balance (creditors s ! pos_j s) - pay_of s\<rparr>]"
  by (simp add: settle_step_def Let_def)

lemma suggestions_step:
  "suggestions (settle_step s) = suggestions s @
     [\<lparr>t_from = Participant (debtors s ! pos_i s), t_to = Participant (creditors s ! pos_j s),
       t_amount = pay_of s\<rparr>]"
  by (simp add: settle_step_def Let_def)

lemma pos_i_step:
  "loop_cond s \<Longrightarrow> pos_i (settle_step s) =
     (if \<bar>Balance (debtors s ! pos_i s) + pay_of s\<bar> < eps then pos_i s + 1 else pos_i s)"
  by (simp add: settle_step_def Let_def loop_cond_def)

lemma pos_j_step:
  "loop_cond s \<Longrightarrow> pos_j (settle_step s) =
     (if \<bar>Balance (creditors s ! pos_j s) - pay_of s\<bar> < eps then pos_j s + 1 else pos_j s)"
  by (simp add: settle_step_def Let_def loop_cond_def)

lemma step_advances:
  assumes "loop_cond s"
  shows "pos_i (settle_step s) = pos_i s + 1 \<or> pos_j (settle_step s) = pos_j s + 1"
proof -
  from pay_of_cases [of s] show ?thesis
  proof
    assume "pay_of s = - Balance (debtors s ! pos_i s)"
    then have "pos_i (settle_step s) = pos_i s + 1"
      using assms by (simp add: pos_i_step)
    then show ?thesis ..
  next
    assume "pay_of s = Balance (creditors s ! pos_j s)"
    then have "pos_j (settle_step s) = pos_j s + 1"
      using assms by (simp add: pos_j_step)
    then show ?thesis ..
  qed
qed

lemma remaining_step:
  assumes "loop_cond s"
  shows "remaining (settle_step s) < remaining s"
proof -
  have "pos_i s \<le> pos_i (settle_step s)" and "pos_j s \<le> pos_j (settle_step s)"
    using assms by (simp_all add: pos_i_step pos_j_step)
  with step_advances [OF assms] assms show ?thesis
    by (auto simp: remaining_def loop_cond_def debtors_step creditors_step)
qed

lemma loop_cond_remaining: "loop_cond s \<Longrightarrow> 2 \<le> remaining s"
  unfolding loop_cond_def remaining_def by arith

text \<open>The loop as an iteration of its body.\<close>

lemma settle_loop_funpow:
  "\<exists>n\<le>remaining s. \<not> loop_cond ((settle_step ^^ n) s) \<and>
     (\<forall>m<n. loop_cond ((settle_step ^^ m) s)) \<and> settle_loop s = (settle_step ^^ n) s"
proof (induction s rule: settle_loop.induct)
  case (1 s)
  show ?case
  proof (cases "loop_cond s")
    case False
    then have "\<not> loop_cond ((settle_step ^^ 0) s) \<and>
      (\<forall>m<0. loop_cond ((settle_step ^^ m) s)) \<and> settle_loop s = (settle_step ^^ 0) s"
      by (simp add: settle_loop.simps)
    then show ?thesis
      by blast
  next
    case True
    from "1.IH" [OF True] obtain n where n: "n \<le> remaining (settle_step s)"
      "\<not> loop_cond ((settle_step ^^ n) (settle_step s))"
      "\<forall>m<n. loop_cond ((settle_step ^^ m) (settle_step s))"
      "settle_loop (settle_step s) = (settle_step ^^ n) (settle_step s)"
      by blast
    have "Suc n \<le> remaining s"
      using n(1) remaining_step [OF True] by simp
    moreover have "\<not> loop_cond ((settle_step ^^ Suc n) s)"
      using n(2) by (simp add: funpow_swap1)
    moreover have "\<forall>m<Suc n. loop_cond ((settle_step ^^ m) s)"
    proof (intro allI impI)
      fix m assume "m < Suc n"
      then show "loop_cond ((settle_step ^^ m) s)"
        using True n(3) by (cases m) (simp_all add: funpow_swap1)
    qed
    moreover have "settle_loop s = (settle_step ^^ Suc n) s"
      using True n(4) by (simp add: settle_loop.simps [of s] funpow_swap1)
    ultimately show ?thesis
      by blast
  qed
qed

lemma settle_loop_exit: "\<not> loop_cond (settle_loop s)"
  using settle_loop_funpow [of s] by auto

lemma Participant_update:
  "map Participant (xs[k := (xs ! k)\<lparr>Balance := b\<rparr>]) = map Participant xs"
  by (induction xs arbitrary: k) (simp_all split: nat.split)

lemma suggestions_count:
  "loop_cond s \<Longrightarrow>
   length (suggestions (settle_loop s)) + 1 \<le> length (suggestions s) + remaining s"
proof (induction s rule: settle_loop.induct)
  case (1 s)
  note c = \<open>loop_cond s\<close>
  have eq: "settle_loop s = settle_loop (settle_step s)"
    using c by (simp add: settle_loop.simps [of s])
  have len: "length (suggestions (settle_step s)) = length (suggestions s) + 1"
    by (simp add: suggestions_step)
  show ?case
  proof (cases "loop_cond (settle_step s)")
    case True
    from "1.IH" [OF c True] remaining_step [OF c] len show ?thesis
      by (simp add: eq)
  next
    case False
    then have "settle_loop (settle_step s) = settle_step s"
      by (simp add: settle_loop.simps [of "settle_step s"])
    with loop_cond_remaining [OF c] len show ?thesis
      by (simp add: eq)
  qed
qed

lemma suggestions_no_loop: "\<not> loop_cond s \<Longrightarrow> settle_loop s = s"
  by (simp add: settle_loop.simps [of s])

section \<open>The invariant holds throughout\<close>

lemma debtors_ok_update:
  assumes "debtors_ok ds i" and "i < length ds" and "p \<le> - Balance (ds ! i)"
    and "ds' = ds[i := (ds ! i)\<lparr>Balance := Balance (ds ! i) + p\<rparr>]"
  shows "debtors_ok ds' (if \<bar>Balance (ds ! i) + p\<bar> < eps then i + 1 else i)"
proof -
  have new: "Balance (ds' ! i) = Balance (ds ! i) + p"
    using assms(2,4) by simp
  have old: "Balance (ds' ! k) = Balance (ds ! k)" if "k \<noteq> i" for k
    using that assms(4) by simp
  have len: "length ds' = length ds"
    using assms(4) by simp
  show ?thesis
  proof (cases "\<bar>Balance (ds ! i) + p\<bar> < eps")
    case True
    have "(k < i + 1 \<longrightarrow> - eps < Balance (ds' ! k) \<and> Balance (ds' ! k) \<le> 0) \<and>
        (i + 1 \<le> k \<longrightarrow> Balance (ds' ! k) < 0)" if "k < length ds" for k
    proof (cases "k = i")
      case True
      with \<open>\<bar>Balance (ds ! i) + p\<bar> < eps\<close> assms(3) new show ?thesis
        by simp
    next
      case False
      with assms(1) that old [OF False] show ?thesis
        by (auto simp: debtors_ok_def)
    qed
    with True assms(2) len show ?thesis
      by (simp add: debtors_ok_def)
  next
    case False
    have "(k < i \<longrightarrow> - eps < Balance (ds' ! k) \<and> Balance (ds' ! k) \<le> 0) \<and>
        (i \<le> k \<longrightarrow> Balance (ds' ! k) < 0)" if "k < length ds" for k
    proof (cases "k = i")
      case True
      have "Balance (ds ! i) + p < 0"
        using False assms(3) eps_pos by linarith
      with True new show ?thesis
        by simp
    next
      case neq: False
      with assms(1) that old [OF neq] show ?thesis
        by (auto simp: debtors_ok_def)
    qed
    with False assms(2) len show ?thesis
      by (simp add: debtors_ok_def)
  qed
qed

lemma creditors_ok_update:
  assumes "creditors_ok cs j" and "j < length cs" and "p \<le> Balance (cs ! j)"
    and "cs' = cs[j := (cs ! j)\<lparr>Balance := Balance (cs ! j) - p\<rparr>]"
  shows "creditors_ok cs' (if \<bar>Balance (cs ! j) - p\<bar> < eps then j + 1 else j)"
proof -
  have new: "Balance (cs' ! j) = Balance (cs ! j) - p"
    using assms(2,4) by simp
  have old: "Balance (cs' ! k) = Balance (cs ! k)" if "k \<noteq> j" for k
    using that assms(4) by simp
  have len: "length cs' = length cs"
    using assms(4) by simp
  show ?thesis
  proof (cases "\<bar>Balance (cs ! j) - p\<bar> < eps")
    case True
    have "(k < j + 1 \<longrightarrow> 0 \<le> Balance (cs' ! k) \<and> Balance (cs' ! k) < eps) \<and>
        (j + 1 \<le> k \<longrightarrow> 0 < Balance (cs' ! k))" if "k < length cs" for k
    proof (cases "k = j")
      case True
      with \<open>\<bar>Balance (cs ! j) - p\<bar> < eps\<close> assms(3) new show ?thesis
        by simp
    next
      case False
      with assms(1) that old [OF False] show ?thesis
        by (auto simp: creditors_ok_def)
    qed
    with True assms(2) len show ?thesis
      by (simp add: creditors_ok_def)
  next
    case False
    have "(k < j \<longrightarrow> 0 \<le> Balance (cs' ! k) \<and> Balance (cs' ! k) < eps) \<and>
        (j \<le> k \<longrightarrow> 0 < Balance (cs' ! k))" if "k < length cs" for k
    proof (cases "k = j")
      case True
      have "0 < Balance (cs ! j) - p"
        using False assms(3) eps_pos by linarith
      with True new show ?thesis
        by simp
    next
      case neq: False
      with assms(1) that old [OF neq] show ?thesis
        by (auto simp: creditors_ok_def)
    qed
    with False assms(2) len show ?thesis
      by (simp add: creditors_ok_def)
  qed
qed

lemma pay_of_bounds:
  "pay_of s \<le> - Balance (debtors s ! pos_i s)" "pay_of s \<le> Balance (creditors s ! pos_j s)"
  by (simp_all add: pay_of_def)

lemma pay_of_pos:
  assumes "settle_inv s" and "loop_cond s"
  shows "0 < pay_of s"
proof -
  have "Balance (debtors s ! pos_i s) < 0"
    using assms by (simp add: settle_inv_def debtors_ok_def loop_cond_def)
  moreover have "0 < Balance (creditors s ! pos_j s)"
    using assms by (simp add: settle_inv_def creditors_ok_def loop_cond_def)
  ultimately show ?thesis
    by (simp add: pay_of_def)
qed

lemma settle_inv_step:
  assumes "settle_inv s" and "loop_cond s"
  shows "settle_inv (settle_step s)"
proof -
  have i: "pos_i s < length (debtors s)" and j: "pos_j s < length (creditors s)"
    using assms(2) by (simp_all add: loop_cond_def)
  have d: "debtors_ok (debtors s) (pos_i s)" and c: "creditors_ok (creditors s) (pos_j s)"
    using assms(1) by (simp_all add: settle_inv_def)
  have "debtors_ok (debtors (settle_step s)) (pos_i (settle_step s))"
    unfolding pos_i_step [OF assms(2)]
    by (rule debtors_ok_update [OF d i pay_of_bounds(1) debtors_step])
  moreover have "creditors_ok (creditors (settle_step s)) (pos_j (settle_step s))"
    unfolding pos_j_step [OF assms(2)]
    by (rule creditors_ok_update [OF c j pay_of_bounds(2) creditors_step])
  moreover have "\<forall>t\<in>set (suggestions (settle_step s)). 0 < t_amount t"
    using assms(1) pay_of_pos [OF assms] by (simp add: suggestions_step settle_inv_def)
  ultimately show ?thesis
    by (simp add: settle_inv_def)
qed

lemma settle_inv_init: "settle_inv (settle_init balances)"
proof -
  have "Balance (filter (\<lambda>r. Balance r < 0) balances ! k) < 0"
    if "k < length (filter (\<lambda>r. Balance r < 0) balances)" for k
    using nth_mem [OF that] by simp
  moreover have "0 < Balance (filter (\<lambda>r. 0 < Balance r) balances ! k)"
    if "k < length (filter (\<lambda>r. 0 < Balance r) balances)" for k
    using nth_mem [OF that] by simp
  ultimately show ?thesis
    by (simp add: settle_inv_def settle_init_def debtors_ok_def creditors_ok_def)
qed

lemma settle_inv_loop: "settle_inv s \<Longrightarrow> settle_inv (settle_loop s)"
proof (induction s rule: settle_loop.induct)
  case (1 s)
  then show ?case
    by (cases "loop_cond s") (simp_all add: settle_loop.simps [of s] settle_inv_step)
qed

section \<open>The tables at the end of the loop\<close>

lemma compute_settlement_final:
  "compute_settlement balances = suggestions (settle_final balances)"
  by (simp add: compute_settlement_def settle_final_def)

lemma debtors_ok_nonpos: "debtors_ok ds i \<Longrightarrow> r \<in> set ds \<Longrightarrow> Balance r \<le> 0"
  by (fastforce simp: debtors_ok_def in_set_conv_nth not_less)

lemma creditors_ok_nonneg: "creditors_ok cs j \<Longrightarrow> r \<in> set cs \<Longrightarrow> 0 \<le> Balance r"
  by (fastforce simp: creditors_ok_def in_set_conv_nth not_less)

lemma debtors_ok_done: "debtors_ok ds (length ds) \<Longrightarrow> r \<in> set ds \<Longrightarrow> - eps < Balance r"
  by (auto simp: debtors_ok_def in_set_conv_nth)

lemma creditors_ok_done: "creditors_ok cs (length cs) \<Longrightarrow> r \<in> set cs \<Longrightarrow> Balance r < eps"
  by (auto simp: creditors_ok_def in_set_conv_nth)

lemma exit_exhausted:
  assumes "settle_inv s" and "\<not> loop_cond s"
  shows "pos_i s = length (debtors s) \<or> pos_j s = length (creditors s)"
  using assms by (auto simp: settle_inv_def debtors_ok_def creditors_ok_def loop_cond_def)

lemma final_facts:
  "settle_inv (settle_final balances)"
  "\<not> loop_cond (settle_final balances)"
  by (simp_all add: settle_final_def settle_inv_loop settle_inv_init settle_loop_exit)

lemma final_one_side:
  "(\<forall>r\<in>set (debtors (settle_final balances)). \<bar>Balance r\<bar> < eps) \<or>
   (\<forall>r\<in>set (creditors (settle_final balances)). \<bar>Balance r\<bar> < eps)"
proof -
  let ?s = "settle_final balances"
  have d: "debtors_ok (debtors ?s) (pos_i ?s)" and c: "creditors_ok (creditors ?s) (pos_j ?s)"
    using final_facts(1) [of balances] by (simp_all add: settle_inv_def)
  from exit_exhausted [OF final_facts(1,2)] show ?thesis
  proof
    assume "pos_i ?s = length (debtors ?s)"
    with d have "\<forall>r\<in>set (debtors ?s). \<bar>Balance r\<bar> < eps"
      using debtors_ok_nonpos debtors_ok_done by fastforce
    then show ?thesis ..
  next
    assume "pos_j ?s = length (creditors ?s)"
    with c have "\<forall>r\<in>set (creditors ?s). \<bar>Balance r\<bar> < eps"
      using creditors_ok_nonneg creditors_ok_done by fastforce
    then show ?thesis ..
  qed
qed

lemma final_count:
  "length (compute_settlement balances) \<le>
     length (debtors (settle_init balances)) + length (creditors (settle_init balances)) - 1"
proof (cases "loop_cond (settle_init balances)")
  case True
  from suggestions_count [OF True] show ?thesis
    by (simp add: compute_settlement_def remaining_def settle_init_def)
next
  case False
  then show ?thesis
    by (simp add: compute_settlement_def suggestions_no_loop settle_init_def)
qed

lemma no_pair_no_transfer:
  "debtors (settle_init balances) = [] \<or> creditors (settle_init balances) = [] \<Longrightarrow>
   compute_settlement balances = []"
proof -
  assume "debtors (settle_init balances) = [] \<or> creditors (settle_init balances) = []"
  then have "\<not> loop_cond (settle_init balances)"
    by (auto simp: loop_cond_def)
  then show ?thesis
    by (simp add: compute_settlement_def suggestions_no_loop settle_init_def)
qed

section \<open>The transfers applied\<close>

lemma Participant_apply_transfer [simp]:
  "map Participant (apply_transfer t rows) = map Participant rows"
  by (simp add: apply_transfer_def comp_def)

lemma Participant_fold_apply [simp]:
  "map Participant (fold apply_transfer ts rows) = map Participant rows"
  by (induction ts arbitrary: rows) simp_all

lemma length_apply_transfer [simp]: "length (apply_transfer t rows) = length rows"
  by (simp add: apply_transfer_def)

lemma apply_transfer_unnamed:
  assumes "t_from t \<notin> set (map Participant rows)" and "t_to t \<notin> set (map Participant rows)"
  shows "apply_transfer t rows = rows"
  using assms by (induction rows) (auto simp: apply_transfer_def)

lemma fold_apply_unnamed:
  assumes "\<forall>t\<in>set ts. t_from t \<notin> set (map Participant rows) \<and> t_to t \<notin> set (map Participant rows)"
  shows "fold apply_transfer ts rows = rows"
  using assms by (induction ts) (simp_all add: apply_transfer_unnamed)

lemma filter_apply_transfer:
  "filter (\<lambda>r. P (Participant r)) (apply_transfer t rows) =
     apply_transfer t (filter (\<lambda>r. P (Participant r)) rows)"
  by (induction rows) (simp_all add: apply_transfer_def)

lemma filter_fold_apply:
  "filter (\<lambda>r. P (Participant r)) (fold apply_transfer ts rows) =
     fold apply_transfer ts (filter (\<lambda>r. P (Participant r)) rows)"
  by (induction ts arbitrary: rows) (simp_all add: filter_apply_transfer)

text \<open>With distinct names, the update by name is the update by position.\<close>

lemma apply_transfer_from_at:
  assumes "distinct (map Participant rows)" and "k < length rows"
    and "t_from t = Participant (rows ! k)" and "t_to t \<notin> set (map Participant rows)"
  shows "apply_transfer t rows = rows[k := (rows ! k)\<lparr>Balance := Balance (rows ! k) + t_amount t\<rparr>]"
proof (rule nth_equalityI)
  show "length (apply_transfer t rows) =
      length (rows[k := (rows ! k)\<lparr>Balance := Balance (rows ! k) + t_amount t\<rparr>])"
    by simp
next
  fix m
  assume "m < length (apply_transfer t rows)"
  then have m: "m < length rows"
    by simp
  have to: "Participant (rows ! m) \<noteq> t_to t"
    using assms(4) m by (metis length_map nth_map nth_mem)
  show "apply_transfer t rows ! m =
      rows[k := (rows ! k)\<lparr>Balance := Balance (rows ! k) + t_amount t\<rparr>] ! m"
  proof (cases "m = k")
    case True
    with m assms(3) show ?thesis
      by (simp add: apply_transfer_def)
  next
    case False
    have "Participant (rows ! m) \<noteq> Participant (rows ! k)"
      using False m assms(1,2) by (metis distinct_conv_nth length_map nth_map)
    with False m to assms(3) show ?thesis
      by (simp add: apply_transfer_def)
  qed
qed

lemma apply_transfer_to_at:
  assumes "distinct (map Participant rows)" and "k < length rows"
    and "t_to t = Participant (rows ! k)" and "t_from t \<notin> set (map Participant rows)"
  shows "apply_transfer t rows = rows[k := (rows ! k)\<lparr>Balance := Balance (rows ! k) - t_amount t\<rparr>]"
proof (rule nth_equalityI)
  show "length (apply_transfer t rows) =
      length (rows[k := (rows ! k)\<lparr>Balance := Balance (rows ! k) - t_amount t\<rparr>])"
    by simp
next
  fix m
  assume "m < length (apply_transfer t rows)"
  then have m: "m < length rows"
    by simp
  have fr: "Participant (rows ! m) \<noteq> t_from t"
    using assms(4) m by (metis length_map nth_map nth_mem)
  show "apply_transfer t rows ! m =
      rows[k := (rows ! k)\<lparr>Balance := Balance (rows ! k) - t_amount t\<rparr>] ! m"
  proof (cases "m = k")
    case True
    with m assms(3) fr show ?thesis
      by (simp add: apply_transfer_def)
  next
    case False
    have "Participant (rows ! m) \<noteq> Participant (rows ! k)"
      using False m assms(1,2) by (metis distinct_conv_nth length_map nth_map)
    with False m fr assms(3) show ?thesis
      by (simp add: apply_transfer_def)
  qed
qed

lemma step_applies_transfer:
  assumes "loop_cond s" and "names_apart s"
  shows "debtors (settle_step s) = apply_transfer (transfer_of s) (debtors s)"
    and "creditors (settle_step s) = apply_transfer (transfer_of s) (creditors s)"
proof -
  have i: "pos_i s < length (debtors s)" and j: "pos_j s < length (creditors s)"
    using assms(1) by (simp_all add: loop_cond_def)
  have dd: "distinct (map Participant (debtors s))"
    and dc: "distinct (map Participant (creditors s))"
    and disj: "set (map Participant (debtors s)) \<inter> set (map Participant (creditors s)) = {}"
    using assms(2) by (simp_all add: names_apart_def)
  have "Participant (debtors s ! pos_i s) \<in> set (map Participant (debtors s))"
    using i by simp
  with disj have a: "t_from (transfer_of s) \<notin> set (map Participant (creditors s))"
    by (auto simp: transfer_of_def)
  have "Participant (creditors s ! pos_j s) \<in> set (map Participant (creditors s))"
    using j by simp
  with disj have b: "t_to (transfer_of s) \<notin> set (map Participant (debtors s))"
    by (auto simp: transfer_of_def)
  show "debtors (settle_step s) = apply_transfer (transfer_of s) (debtors s)"
    using apply_transfer_from_at [OF dd i _ b] by (simp add: debtors_step transfer_of_def)
  show "creditors (settle_step s) = apply_transfer (transfer_of s) (creditors s)"
    using apply_transfer_to_at [OF dc j _ a] by (simp add: creditors_step transfer_of_def)
qed

lemma names_apart_step: "names_apart s \<Longrightarrow> names_apart (settle_step s)"
  by (simp add: names_apart_def debtors_step creditors_step Participant_update)

lemma loop_applies_transfers:
  assumes "names_apart s"
  shows "\<exists>ts. suggestions (settle_loop s) = suggestions s @ ts \<and>
           debtors (settle_loop s) = fold apply_transfer ts (debtors s) \<and>
           creditors (settle_loop s) = fold apply_transfer ts (creditors s) \<and>
           (\<forall>t\<in>set ts. t_from t \<in> set (map Participant (debtors s)) \<and>
              t_to t \<in> set (map Participant (creditors s)))"
  using assms
proof (induction s rule: settle_loop.induct)
  case (1 s)
  show ?case
  proof (cases "loop_cond s")
    case False
    then have "settle_loop s = s"
      by (rule suggestions_no_loop)
    then have "suggestions (settle_loop s) = suggestions s @ [] \<and>
        debtors (settle_loop s) = fold apply_transfer [] (debtors s) \<and>
        creditors (settle_loop s) = fold apply_transfer [] (creditors s) \<and>
        (\<forall>t\<in>set []. t_from t \<in> set (map Participant (debtors s)) \<and>
           t_to t \<in> set (map Participant (creditors s)))"
      by simp
    then show ?thesis
      by blast
  next
    case True
    let ?s = "settle_step s" and ?t = "transfer_of s"
    have eq: "settle_loop s = settle_loop ?s"
      using True by (simp add: settle_loop.simps [of s])
    have ap: "names_apart ?s"
      using "1.prems" by (rule names_apart_step)
    from "1.IH" [OF True ap] obtain ts where ts:
      "suggestions (settle_loop ?s) = suggestions ?s @ ts"
      "debtors (settle_loop ?s) = fold apply_transfer ts (debtors ?s)"
      "creditors (settle_loop ?s) = fold apply_transfer ts (creditors ?s)"
      "\<forall>t\<in>set ts. t_from t \<in> set (map Participant (debtors ?s)) \<and>
         t_to t \<in> set (map Participant (creditors ?s))"
      by blast
    have nd: "map Participant (debtors ?s) = map Participant (debtors s)"
      and nc: "map Participant (creditors ?s) = map Participant (creditors s)"
      by (simp_all add: debtors_step creditors_step Participant_update)
    have i: "pos_i s < length (debtors s)" and j: "pos_j s < length (creditors s)"
      using True by (simp_all add: loop_cond_def)
    have "suggestions (settle_loop s) = suggestions s @ (?t # ts)"
      using ts(1) by (simp add: eq suggestions_step transfer_of_def)
    moreover have "debtors (settle_loop s) = fold apply_transfer (?t # ts) (debtors s)"
      using ts(2) step_applies_transfer(1) [OF True "1.prems"] by (simp add: eq)
    moreover have "creditors (settle_loop s) = fold apply_transfer (?t # ts) (creditors s)"
      using ts(3) step_applies_transfer(2) [OF True "1.prems"] by (simp add: eq)
    moreover have "\<forall>t\<in>set (?t # ts). t_from t \<in> set (map Participant (debtors s)) \<and>
        t_to t \<in> set (map Participant (creditors s))"
      using ts(4) i j unfolding nd nc by (simp add: transfer_of_def)
    ultimately show ?thesis
      by blast
  qed
qed

lemma same_name_same_row:
  assumes "distinct (map Participant rows)" and "r \<in> set rows" and "r' \<in> set rows"
    and "Participant r = Participant r'"
  shows "r = r'"
  using assms by (meson distinct_map inj_onD)

lemma debtor_names_iff:
  assumes "distinct (map Participant balances)" and "r \<in> set balances"
  shows "Participant r \<in> debtor_names balances \<longleftrightarrow> Balance r < 0"
proof
  assume "Participant r \<in> debtor_names balances"
  then obtain r' where r': "r' \<in> set balances" "Balance r' < 0" "Participant r' = Participant r"
    by (auto simp: debtor_names_def settle_init_def)
  with assms have "r' = r"
    by (metis same_name_same_row)
  with r' show "Balance r < 0"
    by simp
next
  assume "Balance r < 0"
  with assms(2) show "Participant r \<in> debtor_names balances"
    by (auto simp: debtor_names_def settle_init_def)
qed

lemma creditor_names_iff:
  assumes "distinct (map Participant balances)" and "r \<in> set balances"
  shows "Participant r \<in> creditor_names balances \<longleftrightarrow> 0 < Balance r"
proof
  assume "Participant r \<in> creditor_names balances"
  then obtain r' where r': "r' \<in> set balances" "0 < Balance r'" "Participant r' = Participant r"
    by (auto simp: creditor_names_def settle_init_def)
  with assms have "r' = r"
    by (metis same_name_same_row)
  with r' show "0 < Balance r"
    by simp
next
  assume "0 < Balance r"
  with assms(2) show "Participant r \<in> creditor_names balances"
    by (auto simp: creditor_names_def settle_init_def)
qed

lemma names_apart_init:
  assumes "distinct (map Participant balances)"
  shows "names_apart (settle_init balances)"
proof -
  have "distinct (map Participant (filter (\<lambda>r. Balance r < 0) balances))"
    and "distinct (map Participant (filter (\<lambda>r. 0 < Balance r) balances))"
    using assms by (simp_all add: distinct_map_filter)
  moreover have "debtor_names balances \<inter> creditor_names balances = {}"
  proof (rule ccontr)
    assume "debtor_names balances \<inter> creditor_names balances \<noteq> {}"
    then obtain n where n: "n \<in> debtor_names balances" "n \<in> creditor_names balances"
      by blast
    from n(1) obtain r where r: "r \<in> set balances" "Participant r = n"
      by (auto simp: debtor_names_def settle_init_def)
    with n assms have "Balance r < 0" and "0 < Balance r"
      using debtor_names_iff creditor_names_iff by blast+
    then show False
      by simp
  qed
  ultimately show ?thesis
    by (simp add: names_apart_def settle_init_def debtor_names_def creditor_names_def)
qed

lemma suggestions_named:
  "\<forall>t\<in>set (suggestions (settle_loop s)).
     t \<in> set (suggestions s) \<or>
     t_from t \<in> set (map Participant (debtors s)) \<and> t_to t \<in> set (map Participant (creditors s))"
proof (induction s rule: settle_loop.induct)
  case (1 s)
  show ?case
  proof (cases "loop_cond s")
    case False
    then show ?thesis
      by (simp add: suggestions_no_loop)
  next
    case True
    have eq: "settle_loop s = settle_loop (settle_step s)"
      using True by (simp add: settle_loop.simps [of s])
    have nd: "map Participant (debtors (settle_step s)) = map Participant (debtors s)"
      and nc: "map Participant (creditors (settle_step s)) = map Participant (creditors s)"
      by (simp_all add: debtors_step creditors_step Participant_update)
    have i: "pos_i s < length (debtors s)" and j: "pos_j s < length (creditors s)"
      using True by (simp_all add: loop_cond_def)
    show ?thesis
      unfolding eq
    proof
      fix t
      assume "t \<in> set (suggestions (settle_loop (settle_step s)))"
      with "1.IH" [OF True] have "t \<in> set (suggestions (settle_step s)) \<or>
          t_from t \<in> set (map Participant (debtors s)) \<and>
          t_to t \<in> set (map Participant (creditors s))"
        unfolding nd nc by blast
      then show "t \<in> set (suggestions s) \<or>
          t_from t \<in> set (map Participant (debtors s)) \<and>
          t_to t \<in> set (map Participant (creditors s))"
        using i j by (auto simp: suggestions_step)
    qed
  qed
qed

lemma transfers_named:
  assumes "t \<in> set (compute_settlement balances)"
  shows "t_from t \<in> debtor_names balances \<and> t_to t \<in> creditor_names balances"
proof -
  have "suggestions (settle_init balances) = []"
    by (simp add: settle_init_def)
  with suggestions_named [of "settle_init balances"] assms show ?thesis
    by (simp add: compute_settlement_def debtor_names_def creditor_names_def)
qed

lemma adjusted_tables:
  assumes "distinct (map Participant balances)"
  shows "filter (\<lambda>r. Participant r \<in> debtor_names balances) (adjusted_balances balances) =
      debtors (settle_final balances)"
    and "filter (\<lambda>r. Participant r \<in> creditor_names balances) (adjusted_balances balances) =
      creditors (settle_final balances)"
    and "filter (\<lambda>r. Participant r \<notin> debtor_names balances \<and> Participant r \<notin> creditor_names balances)
        (adjusted_balances balances) =
      filter (\<lambda>r. \<not> Balance r < 0 \<and> \<not> 0 < Balance r) balances"
proof -
  let ?s = "settle_init balances"
  from loop_applies_transfers [OF names_apart_init [OF assms]] obtain ts where ts:
    "suggestions (settle_loop ?s) = suggestions ?s @ ts"
    "debtors (settle_loop ?s) = fold apply_transfer ts (debtors ?s)"
    "creditors (settle_loop ?s) = fold apply_transfer ts (creditors ?s)"
    by blast
  have ts_eq: "ts = compute_settlement balances"
    using ts(1) by (simp add: compute_settlement_def settle_init_def)
  have fd: "filter (\<lambda>r. Participant r \<in> debtor_names balances) balances = debtors ?s"
    using debtor_names_iff [OF assms] by (auto simp: settle_init_def intro: filter_cong)
  have fc: "filter (\<lambda>r. Participant r \<in> creditor_names balances) balances = creditors ?s"
    using creditor_names_iff [OF assms] by (auto simp: settle_init_def intro: filter_cong)
  have fz: "filter (\<lambda>r. Participant r \<notin> debtor_names balances \<and>
        Participant r \<notin> creditor_names balances) balances =
      filter (\<lambda>r. \<not> Balance r < 0 \<and> \<not> 0 < Balance r) balances"
    using debtor_names_iff [OF assms] creditor_names_iff [OF assms] by (auto intro: filter_cong)
  show "filter (\<lambda>r. Participant r \<in> debtor_names balances) (adjusted_balances balances) =
      debtors (settle_final balances)"
    unfolding adjusted_balances_def settle_final_def
    using ts(2) filter_fold_apply [of "\<lambda>n. n \<in> debtor_names balances" ts balances]
    by (simp only: fd ts_eq)
  show "filter (\<lambda>r. Participant r \<in> creditor_names balances) (adjusted_balances balances) =
      creditors (settle_final balances)"
    unfolding adjusted_balances_def settle_final_def
    using ts(3) filter_fold_apply [of "\<lambda>n. n \<in> creditor_names balances" ts balances]
    by (simp only: fc ts_eq)
  have "fold apply_transfer (compute_settlement balances)
      (filter (\<lambda>r. Participant r \<notin> debtor_names balances \<and>
         Participant r \<notin> creditor_names balances) balances) =
      filter (\<lambda>r. Participant r \<notin> debtor_names balances \<and>
         Participant r \<notin> creditor_names balances) balances"
  proof (rule fold_apply_unnamed, intro ballI conjI)
    fix t
    assume "t \<in> set (compute_settlement balances)"
    then have n: "t_from t \<in> debtor_names balances" "t_to t \<in> creditor_names balances"
      using transfers_named by blast+
    show "t_from t \<notin> set (map Participant (filter (\<lambda>r. Participant r \<notin> debtor_names balances \<and>
        Participant r \<notin> creditor_names balances) balances))"
      using n(1) by auto
    show "t_to t \<notin> set (map Participant (filter (\<lambda>r. Participant r \<notin> debtor_names balances \<and>
        Participant r \<notin> creditor_names balances) balances))"
      using n(2) by auto
  qed
  then show "filter (\<lambda>r. Participant r \<notin> debtor_names balances \<and>
        Participant r \<notin> creditor_names balances) (adjusted_balances balances) =
      filter (\<lambda>r. \<not> Balance r < 0 \<and> \<not> 0 < Balance r) balances"
    unfolding adjusted_balances_def
    by (simp only: filter_fold_apply [of "\<lambda>n. n \<notin> debtor_names balances \<and> n \<notin> creditor_names balances"] fz)
qed

lemma final_signs:
  "\<forall>r\<in>set (debtors (settle_final balances)). Balance r \<le> 0"
  "\<forall>r\<in>set (creditors (settle_final balances)). 0 \<le> Balance r"
  using final_facts(1) [of balances] debtors_ok_nonpos creditors_ok_nonneg
  by (auto simp: settle_inv_def)

lemma transfers_positive: "\<forall>t\<in>set (compute_settlement balances). 0 < t_amount t"
  using final_facts(1) [of balances] by (simp add: settle_inv_def compute_settlement_final)

section \<open>Evaluation on the example tables\<close>

lemmas settle_eval =
  compute_settlement_def settle_final_def settle_init_def settle_loop.simps loop_cond_def
  settle_step_def pay_of_def Let_def eps_def

lemma compute_balances_residue: "compute_balances ledger_residue = Inr balances_residue"
  by (simp add: compute_balances_def Let_def ledger_residue_def balances_residue_def)

lemma compute_balances_four: "compute_balances ledger_four = Inr balances_four"
  by (simp add: compute_balances_def Let_def ledger_four_def balances_four_def)

lemma compute_balances_tiny: "compute_balances ledger_tiny = Inr balances_tiny"
  by (simp add: compute_balances_def Let_def ledger_tiny_def balances_tiny_def)

section \<open>Adding a participant\<close>

text \<open>
  Claim C3, as the specification states it: adding a name that is empty or consists of
  white space fails with \<open>DuplicateNameError\<close>. The handler tests only whether the
  string is empty: a name of one blank is appended like any other new name, and the
  empty name is skipped without any refusal.
\<close>

theorem add_participant_whitespace_counterexample:
  "add_participant [] '' '' = ([\<lparr>Participant = '' '', Amount = 0\<rparr>], None) \<and>
   add_participant [] '''' = ([], None)"
  by (simp add: add_participant_def)

text \<open>
  Claim C3, amended. Adding a name is refused with \<open>DuplicateNameError\<close> exactly when
  the name is not empty and already in the table (an exact, case-sensitive match), and
  the table is then unchanged; the empty name is ignored with no refusal and no change;
  every other name, blank ones included, is appended with amount 0.
\<close>

theorem add_participant_outcomes:
  "(snd (add_participant expenses_df name) = Some DuplicateNameError \<longleftrightarrow>
      name \<noteq> [] \<and> name \<in> set (map Participant expenses_df)) \<and>
   (snd (add_participant expenses_df name) = Some DuplicateNameError \<longrightarrow>
      fst (add_participant expenses_df name) = expenses_df) \<and>
   (name = [] \<longrightarrow> add_participant expenses_df name = (expenses_df, None)) \<and>
   (name \<noteq> [] \<and> name \<notin> set (map Participant expenses_df) \<longrightarrow>
      add_participant expenses_df name =
        (expenses_df @ [\<lparr>Participant = name, Amount = 0\<rparr>], None))"
  by (simp add: add_participant_def)

theorem add_participant_outcomes_witness:
  "add_participant ledger_abc ''A'' = (ledger_abc, Some DuplicateNameError) \<and>
   add_participant ledger_abc ''a'' =
     (ledger_abc @ [\<lparr>Participant = ''a'', Amount = 0\<rparr>], None) \<and>
   add_participant ledger_abc '''' = (ledger_abc, None)"
  using add_participant_outcomes [of ledger_abc "''A''"]
    add_participant_outcomes [of ledger_abc "''a''"]
    add_participant_outcomes [of ledger_abc "''''"]
  by (simp add: ledger_abc_def prod_eq_iff)

section \<open>Refused expenses\<close>

text \<open>
  Claim C4, as the specification states it: for every ledger, an amount that is zero or
  negative is refused with \<open>InvalidAmountError\<close>. On the empty ledger the handler
  never looks at the amount: the refusal is the one for the empty table.
\<close>

theorem allocate_empty_ledger_counterexample:
  "allocate [] 0 Equal = ([], Some EmptyLedgerError) \<and>
   snd (allocate [] 0 Equal) \<noteq> Some InvalidAmountError"
  by (simp add: allocate_def)

text \<open>
  Claim C4, amended. For every non-empty ledger, every amount that is zero or negative
  and either split type, the expense is refused with \<open>InvalidAmountError\<close> and the
  table, with its participants and their amounts, is unchanged.
\<close>

theorem allocate_invalid_amount:
  assumes "expenses_df \<noteq> []" and "amount \<le> 0"
  shows "allocate expenses_df amount split = (expenses_df, Some InvalidAmountError)"
  using assms by (simp add: allocate_def)

theorem allocate_invalid_amount_witness:
  "ledger_abc \<noteq> [] \<and> (0::real) \<le> 0 \<and> (-5::real) \<le> 0 \<and>
   allocate ledger_abc 0 Equal = (ledger_abc, Some InvalidAmountError) \<and>
   allocate ledger_abc (-5) (Unequal [50, 30, 20]) = (ledger_abc, Some InvalidAmountError)"
  using allocate_invalid_amount [of ledger_abc 0 Equal]
    allocate_invalid_amount [of ledger_abc "-5" "Unequal [50, 30, 20]"]
  by (simp add: ledger_abc_def)




section \<open>Accepted expenses\<close>

text \<open>
  Claim C6. For every ledger of \<open>N \<ge> 1\<close> participants and every positive amount, an
  equal split succeeds, keeps the participants and adds the amount divided by \<open>N\<close> to
  the amount of each of them; with the amount 90 and three participants each amount
  grows by 30.
\<close>

theorem allocate_equal_adds:
  assumes "expenses_df \<noteq> []" and "0 < amount"
  shows "\<exists>df'. allocate expenses_df amount Equal = (df', None) \<and>
           map Participant df' = map Participant expenses_df \<and>
           map Amount df' =
             map (\<lambda>r. Amount r + amount / real (length expenses_df)) expenses_df \<and>
           (amount = 90 \<and> length expenses_df = 3 \<longrightarrow>
              map Amount df' = map (\<lambda>r. Amount r + 30) expenses_df)"
  using assms by (simp add: allocate_def Let_def comp_def)

theorem allocate_equal_adds_witness:
  "ledger_abc \<noteq> [] \<and> (0::real) < 90 \<and>
   allocate ledger_abc 90 Equal =
     ([\<lparr>Participant = ''A'', Amount = 130\<rparr>, \<lparr>Participant = ''B'', Amount = 30\<rparr>,
       \<lparr>Participant = ''C'', Amount = 80\<rparr>], None)"
proof -
  obtain df' where "allocate ledger_abc 90 Equal = (df', None)"
    and "map Participant df' = map Participant ledger_abc"
    and "map Amount df' = map (\<lambda>r. Amount r + 30) ledger_abc"
    using allocate_equal_adds [of ledger_abc 90] by (auto simp: ledger_abc_def)
  then show ?thesis
    by (auto simp: ledger_abc_def row.equality)
qed

section \<open>The settlement loop ends\<close>

text \<open>
  Claim C9. The settlement loop terminates on every input. In each pass the payment
  is the whole remaining balance of the current debtor or of the current creditor, so
  at least one of the two positions moves on; the loop is its body run a number of
  times that is at most the number of rows still ahead of the two positions, and it
  ends with the debtors or the creditors exhausted.
\<close>

theorem settle_loop_terminates:
  "(loop_cond s \<longrightarrow>
      (pay_of s = - Balance (debtors s ! pos_i s) \<or> pay_of s = Balance (creditors s ! pos_j s)) \<and>
      (pos_i (settle_step s) = pos_i s + 1 \<or> pos_j (settle_step s) = pos_j s + 1)) \<and>
   (\<exists>n\<le>remaining s.
      (\<forall>m<n. loop_cond ((settle_step ^^ m) s)) \<and> \<not> loop_cond ((settle_step ^^ n) s) \<and>
      settle_loop s = (settle_step ^^ n) s) \<and>
   (length (debtors (settle_loop s)) \<le> pos_i (settle_loop s) \<or>
    length (creditors (settle_loop s)) \<le> pos_j (settle_loop s))"
proof -
  have "length (debtors (settle_loop s)) \<le> pos_i (settle_loop s) \<or>
      length (creditors (settle_loop s)) \<le> pos_j (settle_loop s)"
    using settle_loop_exit [of s] by (auto simp: loop_cond_def)
  then show ?thesis
    using pay_of_cases [of s] step_advances [of s] settle_loop_funpow [of s] by blast
qed

text \<open>On the four balances 30, 20, -25 and -25 the loop runs its body three times.\<close>

theorem settle_loop_terminates_witness:
  "loop_cond (settle_init balances_four) \<and> remaining (settle_init balances_four) = 4 \<and>
   pay_of (settle_init balances_four) = 25 \<and>
   pos_i (settle_step (settle_init balances_four)) = 1 \<and>
   pos_j (settle_step (settle_init balances_four)) = 0 \<and>
   settle_loop (settle_init balances_four) = (settle_step ^^ 3) (settle_init balances_four) \<and>
   pos_i (settle_loop (settle_init balances_four)) = 2 \<and>
   pos_j (settle_loop (settle_init balances_four)) = 2"
  using settle_loop_terminates [of "settle_init balances_four"]
  by (simp add: settle_eval remaining_def balances_four_def numeral_3_eq_3)

section \<open>Debtors and creditors\<close>

text \<open>
  Claim C8, as the specification states it: debtors are the participants whose balance
  is below minus the tolerance, creditors those whose balance is above it, and balances
  that are all within the tolerance of zero give no transfer. The two filters compare
  with zero. With the amounts 0.000001 and 0 the balances are 0.0000005 and -0.0000005,
  both within the tolerance; B is a debtor all the same, A a creditor, and the loop
  suggests a payment from B to A (printed as 0.00).
\<close>

theorem settlement_tiny_counterexample:
  "compute_balances ledger_tiny = Inr balances_tiny \<and>
   \<bar>Balance (balances_tiny ! 0)\<bar> < eps \<and> \<bar>Balance (balances_tiny ! 1)\<bar> < eps \<and>
   debtors (settle_init balances_tiny) =
     [\<lparr>Participant = ''B'', Amount = 0, Balance = - (1 / 2000000)\<rparr>] \<and>
   creditors (settle_init balances_tiny) =
     [\<lparr>Participant = ''A'', Amount = 1 / 1000000, Balance = 1 / 2000000\<rparr>] \<and>
   compute_settlement balances_tiny =
     [\<lparr>t_from = ''B'', t_to = ''A'', t_amount = 1 / 2000000\<rparr>]"
  by (simp add: compute_balances_tiny) (simp add: settle_eval balances_tiny_def)

text \<open>
  Claim C8, amended. The debtors are the participants with a balance below zero and
  the creditors those with a balance above zero, each group in the order of the table;
  consequently, when no balance is negative or no balance is positive, and so when
  every balance is exactly zero, there is no transfer.
\<close>

theorem settlement_partition:
  "debtors (settle_init balances) = filter (\<lambda>r. Balance r < 0) balances \<and>
   creditors (settle_init balances) = filter (\<lambda>r. 0 < Balance r) balances \<and>
   subseq (debtors (settle_init balances)) balances \<and>
   subseq (creditors (settle_init balances)) balances \<and>
   ((\<forall>r\<in>set balances. 0 \<le> Balance r) \<or> (\<forall>r\<in>set balances. Balance r \<le> 0) \<longrightarrow>
      compute_settlement balances = [])"
proof -
  have "compute_settlement balances = []"
    if "(\<forall>r\<in>set balances. 0 \<le> Balance r) \<or> (\<forall>r\<in>set balances. Balance r \<le> 0)"
  proof (rule no_pair_no_transfer)
    from that show "debtors (settle_init balances) = [] \<or> creditors (settle_init balances) = []"
      by (auto simp: settle_init_def filter_empty_conv not_less)
  qed
  then show ?thesis
    by (simp add: settle_init_def)
qed

text \<open>
  The specification's example, where C with balance zero is in neither group, and a
  table of balances that are all zero.
\<close>

theorem settlement_partition_witness:
  "debtors (settle_init balances_abc) = [\<lparr>Participant = ''B'', Amount = 0, Balance = -50\<rparr>] \<and>
   creditors (settle_init balances_abc) = [\<lparr>Participant = ''A'', Amount = 100, Balance = 50\<rparr>] \<and>
   compute_settlement balances_abc = [\<lparr>t_from = ''B'', t_to = ''A'', t_amount = 50\<rparr>] \<and>
   Balance (balances_settled ! 0) = 0 \<and> Balance (balances_settled ! 1) = 0 \<and>
   compute_settlement balances_settled = []"
  using settlement_partition [of balances_abc] settlement_partition [of balances_settled]
  by (simp add: balances_settled_def) (simp add: settle_eval balances_abc_def)

section \<open>What the settlement guarantees\<close>

text \<open>
  Claim C1, as the specification states it: after the suggested transfers every
  participant's balance is within the tolerance of zero. The \<^verbatim>\<open>Balance\<close> columns of the
  two tables at the end of the loop are the balances after the transfers, since the loop
  applies each payment to them as it suggests it. With the amounts 0.9999992,
  0.9999992, 3, 3 and 2.0000016 the mean is 2. A pays 1 to C and B pays 1 to D; each
  payment clears the creditor and leaves the debtor 0.0000008 short, which is within the
  tolerance, so both positions move on both times. The debtors are then exhausted and
  the loop ends with E still owed 0.0000016, more than the tolerance.
\<close>

theorem settlement_residue_counterexample:
  "compute_balances ledger_residue = Inr balances_residue \<and>
   compute_settlement balances_residue =
     [\<lparr>t_from = ''A'', t_to = ''C'', t_amount = 1\<rparr>,
      \<lparr>t_from = ''B'', t_to = ''D'', t_amount = 1\<rparr>] \<and>
   creditors (settle_final balances_residue) =
     [\<lparr>Participant = ''C'', Amount = 3, Balance = 0\<rparr>,
      \<lparr>Participant = ''D'', Amount = 3, Balance = 0\<rparr>,
      \<lparr>Participant = ''E'', Amount = 20000016 / 10000000, Balance = 16 / 10000000\<rparr>] \<and>
   \<not> \<bar>16 / 10000000 :: real\<bar> \<le> eps \<and>
   adjusted_balances balances_residue =
     [\<lparr>Participant = ''A'', Amount = 9999992 / 10000000, Balance = - (8 / 10000000)\<rparr>,
      \<lparr>Participant = ''B'', Amount = 9999992 / 10000000, Balance = - (8 / 10000000)\<rparr>,
      \<lparr>Participant = ''C'', Amount = 3, Balance = 0\<rparr>,
      \<lparr>Participant = ''D'', Amount = 3, Balance = 0\<rparr>,
      \<lparr>Participant = ''E'', Amount = 20000016 / 10000000, Balance = 16 / 10000000\<rparr>]"
  by (simp add: compute_balances_residue)
    (simp add: settle_eval adjusted_balances_def apply_transfer_def balances_residue_def)

text \<open>
  Claim C1, amended. For every table of balances with \<open>D\<close> debtors (balance below
  zero) and \<open>C\<close> creditors (balance above zero), the loop suggests at most \<open>D + C - 1\<close>
  transfers, and none when there is no debtor or no creditor; every transfer has a
  positive amount and goes from a debtor to a creditor. When no two participants share
  a name, applying the transfers in order leaves the participants as they were and
  gives the debtors and the creditors the balances of the two tables the loop ends
  with, and leaves every other row as it was; no debtor's balance ends above zero
  and no creditor's below; and the debtors all end within the tolerance of zero, or
  the creditors all do. Nothing is said of the other group and of the sum: what the
  settled rows were left short adds up there.
\<close>

theorem settlement_guarantee:
  "length (compute_settlement balances) \<le>
     length (debtors (settle_init balances)) + length (creditors (settle_init balances)) - 1 \<and>
   (debtors (settle_init balances) = [] \<or> creditors (settle_init balances) = [] \<longrightarrow>
      compute_settlement balances = []) \<and>
   (\<forall>t\<in>set (compute_settlement balances).
      0 < t_amount t \<and> t_from t \<in> debtor_names balances \<and> t_to t \<in> creditor_names balances) \<and>
   (distinct (map Participant balances) \<longrightarrow>
      map Participant (adjusted_balances balances) = map Participant balances \<and>
      filter (\<lambda>r. Participant r \<in> debtor_names balances) (adjusted_balances balances) =
        debtors (settle_final balances) \<and>
      filter (\<lambda>r. Participant r \<in> creditor_names balances) (adjusted_balances balances) =
        creditors (settle_final balances) \<and>
      filter (\<lambda>r. Participant r \<notin> debtor_names balances \<and> Participant r \<notin> creditor_names balances)
          (adjusted_balances balances) =
        filter (\<lambda>r. \<not> Balance r < 0 \<and> \<not> 0 < Balance r) balances \<and>
      (\<forall>r\<in>set (adjusted_balances balances).
         (Participant r \<in> debtor_names balances \<longrightarrow> Balance r \<le> 0) \<and>
         (Participant r \<in> creditor_names balances \<longrightarrow> 0 \<le> Balance r)) \<and>
      ((\<forall>r\<in>set (adjusted_balances balances).
          Participant r \<in> debtor_names balances \<longrightarrow> \<bar>Balance r\<bar> < eps) \<or>
       (\<forall>r\<in>set (adjusted_balances balances).
          Participant r \<in> creditor_names balances \<longrightarrow> \<bar>Balance r\<bar> < eps)))"
proof -
  have count: "length (compute_settlement balances) \<le>
      length (debtors (settle_init balances)) + length (creditors (settle_init balances)) - 1"
    by (rule final_count)
  have none: "debtors (settle_init balances) = [] \<or> creditors (settle_init balances) = [] \<longrightarrow>
      compute_settlement balances = []"
    using no_pair_no_transfer [of balances] by blast
  have each: "\<forall>t\<in>set (compute_settlement balances).
      0 < t_amount t \<and> t_from t \<in> debtor_names balances \<and> t_to t \<in> creditor_names balances"
    using transfers_positive [of balances] transfers_named [of _ balances] by blast
  have after: "map Participant (adjusted_balances balances) = map Participant balances \<and>
      filter (\<lambda>r. Participant r \<in> debtor_names balances) (adjusted_balances balances) =
        debtors (settle_final balances) \<and>
      filter (\<lambda>r. Participant r \<in> creditor_names balances) (adjusted_balances balances) =
        creditors (settle_final balances) \<and>
      filter (\<lambda>r. Participant r \<notin> debtor_names balances \<and> Participant r \<notin> creditor_names balances)
          (adjusted_balances balances) =
        filter (\<lambda>r. \<not> Balance r < 0 \<and> \<not> 0 < Balance r) balances \<and>
      (\<forall>r\<in>set (adjusted_balances balances).
         (Participant r \<in> debtor_names balances \<longrightarrow> Balance r \<le> 0) \<and>
         (Participant r \<in> creditor_names balances \<longrightarrow> 0 \<le> Balance r)) \<and>
      ((\<forall>r\<in>set (adjusted_balances balances).
          Participant r \<in> debtor_names balances \<longrightarrow> \<bar>Balance r\<bar> < eps) \<or>
       (\<forall>r\<in>set (adjusted_balances balances).
          Participant r \<in> creditor_names balances \<longrightarrow> \<bar>Balance r\<bar> < eps))"
    if d: "distinct (map Participant balances)"
  proof -
    let ?adj = "adjusted_balances balances"
    note tabs = adjusted_tables [OF d]
    have in_d: "r \<in> set (debtors (settle_final balances))"
      if "r \<in> set ?adj" "Participant r \<in> debtor_names balances" for r
    proof -
      have "r \<in> set (filter (\<lambda>r. Participant r \<in> debtor_names balances) ?adj)"
        using that by simp
      then show ?thesis
        by (simp only: tabs(1))
    qed
    have in_c: "r \<in> set (creditors (settle_final balances))"
      if "r \<in> set ?adj" "Participant r \<in> creditor_names balances" for r
    proof -
      have "r \<in> set (filter (\<lambda>r. Participant r \<in> creditor_names balances) ?adj)"
        using that by simp
      then show ?thesis
        by (simp only: tabs(2))
    qed
    have signs: "\<forall>r\<in>set ?adj.
        (Participant r \<in> debtor_names balances \<longrightarrow> Balance r \<le> 0) \<and>
        (Participant r \<in> creditor_names balances \<longrightarrow> 0 \<le> Balance r)"
      using in_d in_c final_signs [of balances] by blast
    have side: "(\<forall>r\<in>set ?adj. Participant r \<in> debtor_names balances \<longrightarrow> \<bar>Balance r\<bar> < eps) \<or>
        (\<forall>r\<in>set ?adj. Participant r \<in> creditor_names balances \<longrightarrow> \<bar>Balance r\<bar> < eps)"
      using in_d in_c final_one_side [of balances] by blast
    have "map Participant ?adj = map Participant balances"
      by (simp add: adjusted_balances_def)
    with tabs signs side show ?thesis
      by blast
  qed
  from count none each after show ?thesis
    by blast
qed

text \<open>
  The specification's example of four participants with the balances 30, 20, -25 and
  -25: three transfers, after which all four balances are zero.
\<close>

theorem settlement_guarantee_witness:
  "compute_balances ledger_four = Inr balances_four \<and>
   distinct (map Participant balances_four) \<and>
   length (debtors (settle_init balances_four)) = 2 \<and>
   length (creditors (settle_init balances_four)) = 2 \<and>
   compute_settlement balances_four =
     [\<lparr>t_from = ''C'', t_to = ''A'', t_amount = 25\<rparr>,
      \<lparr>t_from = ''D'', t_to = ''A'', t_amount = 5\<rparr>,
      \<lparr>t_from = ''D'', t_to = ''B'', t_amount = 20\<rparr>] \<and>
   adjusted_balances balances_four =
     [\<lparr>Participant = ''A'', Amount = 55, Balance = 0\<rparr>,
      \<lparr>Participant = ''B'', Amount = 45, Balance = 0\<rparr>,
      \<lparr>Participant = ''C'', Amount = 0, Balance = 0\<rparr>,
      \<lparr>Participant = ''D'', Amount = 0, Balance = 0\<rparr>]"
  using settlement_guarantee [of balances_four]
  by (simp add: compute_balances_four)
    (simp add: settle_eval adjusted_balances_def apply_transfer_def balances_four_def)

end
